theory Spec2Isabelle
  imports Main "HOL-Library.Word"
begin

unbundle bit_operations_syntax

section \<open>Monitor keys of the carrier (proto/carrier/heart.go)\<close>

text \<open>
  The carrier watches a node inside a topic under one big integer key. Go's
  \<^verbatim>\<open>*big.Int\<close> is an unbounded integer, modelled as \<^typ>\<open>int\<close>;
  \<^verbatim>\<open>Lsh\<close> is \<^const>\<open>push_bit\<close> and \<^verbatim>\<open>Rsh\<close> is \<^const>\<open>drop_bit\<close>
  (both of math/big shift arithmetically). The constant
  \<^verbatim>\<open>config.OverlaySpace\<close>, the width of an overlay address, belongs to the
  configuration package and is taken as the parameter \<open>S\<close>.
\<close>

text \<open>
  \<^verbatim>\<open>id := new(big.Int).Add(new(big.Int).Lsh(topic, uint(config.OverlaySpace)), node)\<close>,
  the first line of \<^verbatim>\<open>monitor\<close>, \<^verbatim>\<open>unmonitor\<close> and \<^verbatim>\<open>ping\<close>.
\<close>

definition monitor_id :: "nat \<Rightarrow> int \<Rightarrow> int \<Rightarrow> int" where
  "monitor_id S topic node = push_bit S topic + node"

text \<open>
  The first two lines of \<^verbatim>\<open>Dead\<close>:
  \<^verbatim>\<open>topic := new(big.Int).Rsh(id, uint(config.OverlaySpace))\<close> and
  \<^verbatim>\<open>node := new(big.Int).Sub(id, new(big.Int).Lsh(topic, uint(config.OverlaySpace)))\<close>.
\<close>

definition dead_topic :: "nat \<Rightarrow> int \<Rightarrow> int" where
  "dead_topic S ident = drop_bit S ident"

definition dead_node :: "nat \<Rightarrow> int \<Rightarrow> int" where
  "dead_node S ident = ident - push_bit S (dead_topic S ident)"

section \<open>Subscriptions of the iris overlay (service/relay/relay.go, package iris)\<close>

text \<open>
  Of the \<^verbatim>\<open>Overlay\<close> struct, \<^verbatim>\<open>subscribe\<close> and \<^verbatim>\<open>unsubscribe\<close> read and
  write the two maps \<^verbatim>\<open>subLive\<close> and \<^verbatim>\<open>subLock\<close> only; the record holds these
  two fields. Connection ids are \<^verbatim>\<open>uint64\<close>. A \<^verbatim>\<open>sync.RWMutex\<close> carries no
  data, so the lock map stores unit values: what matters is which keys it has.
\<close>

type_synonym conn_id = "64 word"

record Overlay =
  subLive :: "string \<rightharpoonup> conn_id list"
  subLock :: "string \<rightharpoonup> unit"

text \<open>
  \<^verbatim>\<open>ErrNotSubscribed\<close> is the overlay's own error value; an error handed back by the
  scribe layer is a value of that layer and is kept apart from it.
\<close>

datatype 'x iris_error = ErrNotSubscribed | ScribeError 'x

text \<open>
  What the two functions do besides changing the maps: calls into the scribe overlay and
  lines written to the log.
\<close>

datatype effect =
    ScribeSubscribe string
  | ScribeUnsubscribe string
  | LogNoTopic string
  | LogNoSubscription string conn_id

text \<open>\<^verbatim>\<open>New\<close>: both maps start empty.\<close>

definition New_Overlay :: Overlay where
  "New_Overlay = \<lparr>subLive = Map.empty, subLock = Map.empty\<rparr>"

text \<open>Reading \<^verbatim>\<open>o.subLive[topic]\<close>: a missing key reads as the nil slice.\<close>

definition live :: "Overlay \<Rightarrow> string \<Rightarrow> conn_id list" where
  "live ov topic = (case subLive ov topic of None \<Rightarrow> [] | Some subs \<Rightarrow> subs)"

text \<open>
  \<^verbatim>\<open>subscribe\<close>. The first argument is what \<^verbatim>\<open>o.scribe.Subscribe(topic)\<close> returns
  if it is called (\<open>None\<close> is Go's nil error). The result is the overlay afterwards,
  the effects in order, and the returned error.
\<close>

definition subscribe ::
  "'x option \<Rightarrow> Overlay \<Rightarrow> conn_id \<Rightarrow> string \<Rightarrow> Overlay \<times> effect list \<times> 'x iris_error option" where
  "subscribe sres ov ident topic =
     (case subLock ov topic of
        None \<Rightarrow>
          (ov\<lparr>subLive := (subLive ov)(topic \<mapsto> [ident]),
              subLock := (subLock ov)(topic \<mapsto> ())\<rparr>,
           [ScribeSubscribe topic], map_option ScribeError sres)
      | Some lock \<Rightarrow>
          (ov\<lparr>subLive := (subLive ov)(topic \<mapsto> live ov topic @ [ident])\<rparr>, [], None))"

text \<open>
  The removal loop of \<^verbatim>\<open>unsubscribe\<close>: the first entry equal to \<open>ident\<close> is cut out
  and the loop stops; the flag is \<^verbatim>\<open>done\<close>.
\<close>

fun remove_sub :: "conn_id \<Rightarrow> conn_id list \<Rightarrow> conn_id list \<times> bool" where
  "remove_sub ident [] = ([], False)"
| "remove_sub ident (subId # subs) =
     (if ident = subId then (subs, True)
      else (case remove_sub ident subs of (subs', done) \<Rightarrow> (subId # subs', done)))"

text \<open>
  \<^verbatim>\<open>unsubscribe\<close>. The first argument is what \<^verbatim>\<open>o.scribe.Unsubscribe(topic)\<close>
  returns if it is called. The shortened list is stored back before \<^verbatim>\<open>done\<close> is
  looked at, as in the source.
\<close>

definition unsubscribe ::
  "'x option \<Rightarrow> Overlay \<Rightarrow> conn_id \<Rightarrow> string \<Rightarrow> Overlay \<times> effect list \<times> 'x iris_error option" where
  "unsubscribe sres ov ident topic =
     (case subLock ov topic of
        None \<Rightarrow> (ov, [LogNoTopic topic], Some ErrNotSubscribed)
      | Some lock \<Rightarrow>
          (case remove_sub ident (live ov topic) of
             (subs, done) \<Rightarrow>
               (let ov1 = ov\<lparr>subLive := (subLive ov)(topic \<mapsto> subs)\<rparr> in
                if \<not> done then (ov1, [LogNoSubscription topic ident], Some ErrNotSubscribed)
                else if length subs = 0 then
                  (ov1\<lparr>subLive := (subLive ov1)(topic := None),
                       subLock := (subLock ov1)(topic := None)\<rparr>,
                   [ScribeUnsubscribe topic], map_option ScribeError sres)
                else (ov1, [], None))))"

text \<open>
  The two maps are created together, filled together and emptied together: they have
  the same keys.
\<close>

definition maps_agree :: "Overlay \<Rightarrow> bool" where
  "maps_agree ov = (dom (subLive ov) = dom (subLock ov))"

section \<open>Decimal text of big integers (math/big, as the carrier uses it)\<close>

text \<open>
  The carrier keys its maps by \<^verbatim>\<open>(*big.Int).String()\<close> and reads keys back with
  \<^verbatim>\<open>SetString(sid, 10)\<close>. Both belong to Go's library; they are written out here
  as the library documents them. A \<^verbatim>\<open>*big.Int\<close> that may be nil is an
  \<^typ>\<open>int option\<close>, nil being \<open>None\<close>. \<^verbatim>\<open>String\<close> prints the decimal
  digits, most significant first, with a leading minus sign for a negative number; on a
  nil pointer it prints \<^verbatim>\<open><nil>\<close>. \<^verbatim>\<open>SetString\<close> in base ten accepts an
  optional sign followed by one or more decimal digits and nothing else; \<open>None\<close> is
  its failure.
\<close>

definition digit_char :: "nat \<Rightarrow> char" where
  "digit_char d = char_of (48 + d)"

fun nat_digits :: "nat \<Rightarrow> string" where
  "nat_digits n =
     (if n < 10 then [digit_char n] else nat_digits (n div 10) @ [digit_char (n mod 10)])"

declare nat_digits.simps [simp del]

definition decimal :: "int \<Rightarrow> string" where
  "decimal x = (if x < 0 then CHR ''-'' # nat_digits (nat (- x)) else nat_digits (nat x))"

definition big_String :: "int option \<Rightarrow> string" where
  "big_String p = (case p of None \<Rightarrow> ''<nil>'' | Some x \<Rightarrow> decimal x)"

definition is_digit :: "char \<Rightarrow> bool" where
  "is_digit c = (48 \<le> (of_char c :: nat) \<and> (of_char c :: nat) \<le> 57)"

definition digit_val :: "char \<Rightarrow> nat" where
  "digit_val c = of_char c - 48"

definition scan_nat :: "string \<Rightarrow> nat option" where
  "scan_nat ds =
     (if ds \<noteq> [] \<and> list_all is_digit ds
      then Some (foldl (\<lambda>a c. 10 * a + digit_val c) 0 ds) else None)"

definition big_SetString10 :: "string \<Rightarrow> int option" where
  "big_SetString10 s =
     (case s of
        [] \<Rightarrow> None
      | c # cs \<Rightarrow>
          if c = CHR ''-'' then map_option (\<lambda>n. - int n) (scan_nat cs)
          else if c = CHR ''+'' then map_option int (scan_nat cs)
          else map_option int (scan_nat s))"

section \<open>Heartbeat handlers of the carrier (proto/carrier/heart.go)\<close>

text \<open>
  The topic type belongs to the topic package. The two handlers use four things of a
  topic: \<^verbatim>\<open>Self()\<close>, \<^verbatim>\<open>Parent()\<close> (nil is
  \<open>None\<close>) and the two slices that \<^verbatim>\<open>GenerateReport()\<close> returns. A topic is the
  record of these four observations, taken as given. The node ids of a report are
  \<^verbatim>\<open>*big.Int\<close> pointers, and such a slice can hold nil.
\<close>

record Topic =
  self :: int
  parent :: "int option"
  report_ids :: "int option list"
  report_caps :: "int list"

text \<open>The \<^verbatim>\<open>report\<close> struct.\<close>

record report =
  Tops :: "int list"
  Caps :: "int list"

text \<open>
  \<^verbatim>\<open>Beat\<close> can stop in two ways: \<^verbatim>\<open>caps[i]\<close> out of range (a run-time panic of
  Go), and the explicit \<^verbatim>\<open>panic("failed to extract node id.")\<close>.
\<close>

datatype beat_panic = IndexOutOfRange | ExtractNodeId

text \<open>
  The calls the two handlers make on the topics, the heart and the rest of the carrier,
  and the lines they log. A topic is named by its key in the topic map.
\<close>

datatype carrier_call =
    Cycle string
  | SendReport int report
  | SendSubscribe int
  | HeartUnmonitor int
  | LogUnmonitorFailed int int
  | Reown string "int option"
  | HandleUnsubscribe int int bool
  | LogAlreadyDead int

text \<open>
  \<^verbatim>\<open>reports := make(map[string]*report)\<close>. A Go map is walked in no fixed order;
  the model keeps the entries in the order of their insertion and walks them so. The
  topic map \<^verbatim>\<open>c.topics\<close> is likewise a list of key and topic, in the order walked;
  a lookup takes the first entry with the key.
\<close>

type_synonym reports = "(string \<times> report) list"

text \<open>
  The body of the inner loop of \<^verbatim>\<open>Beat\<close>: find the report stored under \<open>sid\<close>,
  create an empty one if there is none, and append the topic and the capacity to it.
\<close>

fun add_report :: "reports \<Rightarrow> string \<Rightarrow> int \<Rightarrow> int \<Rightarrow> reports" where
  "add_report [] sid tp cap = [(sid, \<lparr>Tops = [tp], Caps = [cap]\<rparr>)]"
| "add_report ((k, rep) # reps) sid tp cap =
     (if k = sid then (k, rep\<lparr>Tops := Tops rep @ [tp], Caps := Caps rep @ [cap]\<rparr>) # reps
      else (k, rep) # add_report reps sid tp cap)"

text \<open>
  \<^verbatim>\<open>for i, id := range ids\<close>, from index \<open>i\<close> on; \<open>slf\<close> is \<^verbatim>\<open>top.Self()\<close>.
\<close>

fun bucket ::
  "int \<Rightarrow> int list \<Rightarrow> nat \<Rightarrow> int option list \<Rightarrow> reports \<Rightarrow> beat_panic + reports" where
  "bucket slf caps i [] reps = Inr reps"
| "bucket slf caps i (n # ids) reps =
     (if i < length caps
      then bucket slf caps (Suc i) ids (add_report reps (big_String n) slf (caps ! i))
      else Inl IndexOutOfRange)"

text \<open>The first loop over the topics: fill the reports, then \<^verbatim>\<open>top.Cycle()\<close>.\<close>

fun collect ::
  "(string \<times> Topic) list \<Rightarrow> reports \<Rightarrow> carrier_call list
     \<Rightarrow> beat_panic + (reports \<times> carrier_call list)" where
  "collect [] reps calls = Inr (reps, calls)"
| "collect ((k, tp) # tops) reps calls =
     (case bucket (self tp) (report_caps tp) 0 (report_ids tp) reps of
        Inl p \<Rightarrow> Inl p
      | Inr reps' \<Rightarrow> collect tops reps' (calls @ [Cycle k]))"

text \<open>The loop over the reports: parse the key back and send, or panic.\<close>

fun distribute :: "reports \<Rightarrow> carrier_call list \<Rightarrow> beat_panic + carrier_call list" where
  "distribute [] calls = Inr calls"
| "distribute ((sid, rep) # reps) calls =
     (case big_SetString10 sid of
        Some n \<Rightarrow> distribute reps (calls @ [SendReport n rep])
      | None \<Rightarrow> Inl ExtractNodeId)"

text \<open>The last loop: every topic without a parent sends a subscription for itself.\<close>

fun resubscribe :: "(string \<times> Topic) list \<Rightarrow> carrier_call list \<Rightarrow> carrier_call list" where
  "resubscribe [] calls = calls"
| "resubscribe ((k, tp) # tops) calls =
     (if parent tp = None then resubscribe tops (calls @ [SendSubscribe (self tp)])
      else resubscribe tops calls)"

text \<open>
  \<^verbatim>\<open>Beat\<close>: the calls it makes, in the order made, or the panic that stops it. The
  sends are started as goroutines; the list records that they were started.
\<close>

definition Beat :: "(string \<times> Topic) list \<Rightarrow> beat_panic + carrier_call list" where
  "Beat topics =
     (case collect topics [] [] of
        Inl p \<Rightarrow> Inl p
      | Inr (reps, calls) \<Rightarrow>
          (case distribute reps calls of
             Inl p \<Rightarrow> Inl p
           | Inr calls' \<Rightarrow> Inr (resubscribe topics calls')))"

text \<open>
  \<^verbatim>\<open>Dead\<close>. \<open>unmon\<close> is what \<^verbatim>\<open>c.heart.Unmonitor(id)\<close> returns if it is called;
  an error there is logged and the topic is re-owned all the same.
\<close>

definition Dead ::
  "nat \<Rightarrow> 'x option \<Rightarrow> (string \<times> Topic) list \<Rightarrow> int \<Rightarrow> carrier_call list" where
  "Dead S unmon topics ident =
     (let topic = dead_topic S ident; node = dead_node S ident in
      case map_of topics (big_String (Some topic)) of
        Some tp \<Rightarrow>
          (if parent tp \<noteq> None \<and> parent tp = Some node
           then [HeartUnmonitor ident]
                @ (case unmon of None \<Rightarrow> [] | Some err \<Rightarrow> [LogUnmonitorFailed node topic])
                @ [Reown (big_String (Some topic)) None]
           else [HandleUnsubscribe node topic False])
      | None \<Rightarrow> [LogAlreadyDead topic])"

subsection \<open>Notions used to state what \<open>Beat\<close> does\<close>

text \<open>
  All lines of all topics' reports, in the order \<^verbatim>\<open>Beat\<close> meets them: destination
  (possibly nil), reporting topic, capacity.
\<close>

definition report_lines :: "(string \<times> Topic) list \<Rightarrow> (int option \<times> int \<times> int) list" where
  "report_lines topics =
     concat (map (\<lambda>(k, tp). map (\<lambda>(n, c). (n, self tp, c)) (zip (report_ids tp) (report_caps tp)))
                 topics)"

text \<open>The lines addressed to a node: destination node, reporting topic, capacity.\<close>

definition entries :: "(string \<times> Topic) list \<Rightarrow> (int \<times> int \<times> int) list" where
  "entries topics =
     concat (map (\<lambda>(n, t, c). case n of None \<Rightarrow> [] | Some m \<Rightarrow> [(m, t, c)])
                 (report_lines topics))"

text \<open>The three kinds of call that \<^verbatim>\<open>Beat\<close> makes, read off a list of calls.\<close>

fun cycles_of :: "carrier_call list \<Rightarrow> string list" where
  "cycles_of [] = []"
| "cycles_of (Cycle k # calls) = k # cycles_of calls"
| "cycles_of (other # calls) = cycles_of calls"

fun reports_of :: "carrier_call list \<Rightarrow> (int \<times> report) list" where
  "reports_of [] = []"
| "reports_of (SendReport n rep # calls) = (n, rep) # reports_of calls"
| "reports_of (other # calls) = reports_of calls"

fun subscribes_of :: "carrier_call list \<Rightarrow> int list" where
  "subscribes_of [] = []"
| "subscribes_of (SendSubscribe n # calls) = n # subscribes_of calls"
| "subscribes_of (other # calls) = subscribes_of calls"

definition add_entry :: "reports \<Rightarrow> int option \<times> int \<times> int \<Rightarrow> reports" where
  "add_entry reps e = (case e of (n, t, c) \<Rightarrow> add_report reps (big_String n) t c)"

definition grouped :: "(string \<times> Topic) list \<Rightarrow> reports" where
  "grouped topics = foldl add_entry [] (report_lines topics)"

definition rep_pairs :: "reports \<Rightarrow> string \<Rightarrow> (int \<times> int) list" where
  "rep_pairs reps sid = (case map_of reps sid of None \<Rightarrow> [] | Some r \<Rightarrow> zip (Tops r) (Caps r))"

definition even_reports :: "reports \<Rightarrow> bool" where
  "even_reports reps = list_all (\<lambda>kr. length (Tops (snd kr)) = length (Caps (snd kr))) reps"

definition parse_ok :: "reports \<Rightarrow> bool" where
  "parse_ok reps = list_all (\<lambda>kr. big_SetString10 (fst kr) \<noteq> None) reps"

text \<open>
  \<^verbatim>\<open>GenerateReport\<close> returns parallel slices; \<^verbatim>\<open>Beat\<close> needs a capacity for
  every node id it is given.
\<close>

definition caps_cover :: "(string \<times> Topic) list \<Rightarrow> bool" where
  "caps_cover topics =
     list_all (\<lambda>kt. length (report_ids (snd kt)) \<le> length (report_caps (snd kt))) topics"

text \<open>No report holds a nil node id; some report holds one.\<close>

definition ids_present :: "(string \<times> Topic) list \<Rightarrow> bool" where
  "ids_present topics = list_all (\<lambda>kt. None \<notin> set (report_ids (snd kt))) topics"

definition nil_id :: "(string \<times> Topic) list \<Rightarrow> bool" where
  "nil_id topics = list_ex (\<lambda>kt. None \<in> set (report_ids (snd kt))) topics"

text \<open>
  A carrier with two topics: topic 5 is a root and reports to the nodes 7 and 8; topic 9
  has the parent 7 and reports to it.
\<close>

definition example_topics :: "(string \<times> Topic) list" where
  "example_topics =
     [(''5'', \<lparr>self = 5, parent = None, report_ids = [Some 7, Some 8], report_caps = [3, 4]\<rparr>),
      (''9'', \<lparr>self = 9, parent = Some 7, report_ids = [Some 7], report_caps = [2]\<rparr>)]"


section \<open>The gobber (proto/carrier/heart.go, package gobber)\<close>

text \<open>
  A \<^verbatim>\<open>Gobber\<close> owns two byte buffers and a gob encoder and decoder working on them.
  The encoder and the decoder are Go's \<^verbatim>\<open>encoding/gob\<close>; the gobber is verified for
  any behaviour of theirs, given as a record of functions:
  \<^item> the states of a new encoder and of a new decoder;
  \<^item> \<^verbatim>\<open>Encode(msg)\<close>: from the encoder's state and the message, the error (if
    any), the encoder's next state and the bytes written to the output buffer;
  \<^item> \<^verbatim>\<open>Decode(msg)\<close>: from the decoder's state, the content of the input buffer and
    the value decoded into, the error (if any), the decoder's next state and the bytes it
    has left in the buffer.
  A message (an \<^verbatim>\<open>interface{}\<close>) is a value of any type \<open>'m\<close>.
\<close>

type_synonym bytes = "8 word list"

record ('e, 'd, 'm, 'x) gob =
  NewEncoder :: 'e
  NewDecoder :: 'd
  enc_Encode :: "'e \<Rightarrow> 'm \<Rightarrow> 'x option \<times> 'e \<times> bytes"
  dec_Decode :: "'d \<Rightarrow> bytes \<Rightarrow> 'm \<Rightarrow> 'x option \<times> 'd \<times> bytes"

text \<open>
  The struct. A \<^verbatim>\<open>bytes.Buffer\<close> is the list of its unread bytes: \<^verbatim>\<open>Write\<close>
  appends, \<^verbatim>\<open>Reset\<close> empties, the decoder reads from the front.
\<close>

record ('e, 'd, 'm) Gobber =
  outBuf :: bytes
  inBuf :: bytes
  outEnc :: 'e
  inDec :: 'd
  types :: "'m list"

text \<open>\<^verbatim>\<open>New\<close>.\<close>

definition New_Gobber :: "('e, 'd, 'm, 'x) gob \<Rightarrow> ('e, 'd, 'm) Gobber" where
  "New_Gobber c =
     \<lparr>outBuf = [], inBuf = [], outEnc = NewEncoder c, inDec = NewDecoder c, types = []\<rparr>"

text \<open>
  \<^verbatim>\<open>Init\<close>: the gobber afterwards and the error returned. The message is appended
  to \<^verbatim>\<open>types\<close> before anything can fail. When the encoder fails the function
  returns before the reset of the output buffer is deferred; from then on the buffer is
  emptied on every way out.
\<close>

definition Init ::
  "('e, 'd, 'm, 'x) gob \<Rightarrow> ('e, 'd, 'm) Gobber \<Rightarrow> 'm \<Rightarrow> ('e, 'd, 'm) Gobber \<times> 'x option" where
  "Init c g msg =
     (let g1 = g\<lparr>types := types g @ [msg]\<rparr> in
      case enc_Encode c (outEnc g1) msg of
        (err, enc, written) \<Rightarrow>
          (let g2 = g1\<lparr>outEnc := enc, outBuf := outBuf g1 @ written\<rparr> in
           case err of
             Some x \<Rightarrow> (g2, Some x)
           | None \<Rightarrow>
               (let g3 = g2\<lparr>inBuf := inBuf g2 @ outBuf g2\<rparr> in
                case dec_Decode c (inDec g3) (inBuf g3) msg of
                  (err', dec, rest) \<Rightarrow>
                    (g3\<lparr>inDec := dec, inBuf := rest, outBuf := []\<rparr>, err'))))"

text \<open>\<^verbatim>\<open>Encode\<close>: the gobber afterwards, and the error or the bytes of the message.\<close>

definition Encode ::
  "('e, 'd, 'm, 'x) gob \<Rightarrow> ('e, 'd, 'm) Gobber \<Rightarrow> 'm \<Rightarrow> ('e, 'd, 'm) Gobber \<times> ('x + bytes)" where
  "Encode c g msg =
     (case enc_Encode c (outEnc g) msg of
        (err, enc, written) \<Rightarrow>
          (let g1 = g\<lparr>outEnc := enc, outBuf := outBuf g @ written\<rparr> in
           case err of
             Some x \<Rightarrow> (g1\<lparr>outBuf := []\<rparr>, Inl x)
           | None \<Rightarrow> (g1\<lparr>outBuf := []\<rparr>, Inr (outBuf g1))))"

text \<open>
  A call of \<^verbatim>\<open>Decode\<close> ends by returning (nil or an error) or by
  \<^verbatim>\<open>panic(err)\<close>; either way the gobber is left in some state.
\<close>

datatype ('s, 'x) outcome = Returned 's "'x option" | Panicked 's 'x

text \<open>
  The loop of the recovery path:
  \<^verbatim>\<open>for _, msg := range oldTypes { if err := g.Init(msg); err != nil { panic(err) } }\<close>.
  \<open>Inl\<close> is the panic, with the gobber as it is then.
\<close>

fun reinit ::
  "('e, 'd, 'm, 'x) gob \<Rightarrow> ('e, 'd, 'm) Gobber \<Rightarrow> 'm list
     \<Rightarrow> (('e, 'd, 'm) Gobber \<times> 'x) + ('e, 'd, 'm) Gobber" where
  "reinit c g [] = Inr g"
| "reinit c g (msg # msgs) =
     (case Init c g msg of
        (g', Some err) \<Rightarrow> Inl (g', err)
      | (g', None) \<Rightarrow> reinit c g' msgs)"

text \<open>
  \<^verbatim>\<open>Decode\<close>. The reset of the input buffer is deferred: it happens when the
  function is left, after the recovery path has run, and also when that path panics. The
  new decoder reads from the same input buffer.
\<close>

definition Decode ::
  "('e, 'd, 'm, 'x) gob \<Rightarrow> ('e, 'd, 'm) Gobber \<Rightarrow> bytes \<Rightarrow> 'm
     \<Rightarrow> (('e, 'd, 'm) Gobber, 'x) outcome" where
  "Decode c g data msg =
     (let g1 = g\<lparr>inBuf := inBuf g @ data\<rparr> in
      case dec_Decode c (inDec g1) (inBuf g1) msg of
        (err, dec, rest) \<Rightarrow>
          (let g2 = g1\<lparr>inDec := dec, inBuf := rest\<rparr> in
           case err of
             None \<Rightarrow> Returned (g2\<lparr>inBuf := []\<rparr>) None
           | Some x \<Rightarrow>
               (let g3 = g2\<lparr>outEnc := NewEncoder c, inDec := NewDecoder c\<rparr>;
                    oldTypes = types g3
                in case reinit c g3 oldTypes of
                     Inl (g4, y) \<Rightarrow> Panicked (g4\<lparr>inBuf := []\<rparr>) y
                   | Inr g4 \<Rightarrow> Returned (g4\<lparr>types := oldTypes, inBuf := []\<rparr>) (Some x))))"

subsection \<open>Histories of a gobber\<close>

text \<open>
  A gobber is used through its three methods. A history is a list of calls, run from
  left to right; it stops at a panic.
\<close>

datatype 'm gob_call = CallInit 'm | CallEncode 'm | CallDecode bytes 'm

fun run_call ::
  "('e, 'd, 'm, 'x) gob \<Rightarrow> ('e, 'd, 'm) Gobber \<Rightarrow> 'm gob_call
     \<Rightarrow> (('e, 'd, 'm) Gobber \<times> 'x) + ('e, 'd, 'm) Gobber" where
  "run_call c g (CallInit msg) = Inr (fst (Init c g msg))"
| "run_call c g (CallEncode msg) = Inr (fst (Encode c g msg))"
| "run_call c g (CallDecode data msg) =
     (case Decode c g data msg of
        Returned g' err \<Rightarrow> Inr g'
      | Panicked g' y \<Rightarrow> Inl (g', y))"

fun run_calls ::
  "('e, 'd, 'm, 'x) gob \<Rightarrow> ('e, 'd, 'm) Gobber \<Rightarrow> 'm gob_call list
     \<Rightarrow> (('e, 'd, 'm) Gobber \<times> 'x) + ('e, 'd, 'm) Gobber" where
  "run_calls c g [] = Inr g"
| "run_calls c g (k # ks) =
     (case run_call c g k of
        Inl p \<Rightarrow> Inl p
      | Inr g' \<Rightarrow> run_calls c g' ks)"

text \<open>The messages handed to \<^verbatim>\<open>Init\<close> in a history, in the order of the calls.\<close>

fun registered :: "'m gob_call list \<Rightarrow> 'm list" where
  "registered [] = []"
| "registered (CallInit msg # ks) = msg # registered ks"
| "registered (other # ks) = registered ks"

subsection \<open>What encoding/gob does on the streams of one run\<close>

text \<open>
  The run: \<^verbatim>\<open>g := New()\<close>, \<^verbatim>\<open>g.Init(new(int))\<close>, and then
  \<^verbatim>\<open>g.Decode([]byte{1, 9, 127}, new(int))\<close>. The messages are pointers to an int,
  kept as the int behind them. Of the library the run needs these facts, which hold
  whatever state the encoder or decoder is in:
  \<^item> the int 0 is written as the message \<open>03 04 00 00\<close> (three bytes follow: the type
    id of int, a zero field delta, the value);
  \<^item> that message, alone in the stream, decodes into an int and nothing is left;
  \<^item> a decoder takes a message off the stream as a byte count and that many bytes. From
    \<open>01 09 7F\<close> it takes \<open>01 09\<close>, a definition for the built-in type id 5, and
    fails with ``gob: duplicate type received''; the byte \<open>7F\<close> stays in the stream.
    From \<open>01 09\<close> alone it fails the same way and nothing is left;
  \<^item> from \<open>7F 03 04 00 00\<close> it wants 127 bytes, finds four, and fails with
    \<^verbatim>\<open>io.ErrUnexpectedEOF\<close>, the stream drained.
  On every other input the coders are those of \<open>c\<close>, which is arbitrary: nothing else
  about the library is used.
\<close>

datatype gob_error = DuplicateTypeReceived | ErrUnexpectedEOF | OtherGobError string

definition gob_int_run :: "('e, 'd, int, gob_error) gob \<Rightarrow> ('e, 'd, int, gob_error) gob" where
  "gob_int_run c =
     c\<lparr>enc_Encode := (\<lambda>enc msg.
          if msg = 0 then (None, fst (snd (enc_Encode c enc msg)), [3, 4, 0, 0])
          else enc_Encode c enc msg),
       dec_Decode := (\<lambda>dec buf msg.
          if buf = [3, 4, 0, 0] then (None, fst (snd (dec_Decode c dec buf msg)), [])
          else if buf = [1, 9, 127] then
            (Some DuplicateTypeReceived, fst (snd (dec_Decode c dec buf msg)), [127])
          else if buf = [1, 9] then
            (Some DuplicateTypeReceived, fst (snd (dec_Decode c dec buf msg)), [])
          else if buf = [127, 3, 4, 0, 0] then
            (Some ErrUnexpectedEOF, fst (snd (dec_Decode c dec buf msg)), [])
          else dec_Decode c dec buf msg)\<rparr>"

text \<open>The gobber after \<^verbatim>\<open>New()\<close> and \<^verbatim>\<open>Init(new(int))\<close>.\<close>

definition int_gobber :: "('e, 'd, int, gob_error) gob \<Rightarrow> ('e, 'd, int) Gobber" where
  "int_gobber c = fst (Init (gob_int_run c) (New_Gobber (gob_int_run c)) 0)"

text \<open>The gobber a call of \<^verbatim>\<open>Decode\<close> leaves behind, however the call ends.\<close>

fun left_by :: "('s, 'x) outcome \<Rightarrow> 's" where
  "left_by (Returned g err) = g"
| "left_by (Panicked g err) = g"

section \<open>Accepting a relay (service/relay/relay.go, package relay)\<close>

text \<open>
  \<^verbatim>\<open>acceptRelay\<close> runs three steps that can fail; what they return is given:
  \<^verbatim>\<open>rel.procInit()\<close> gives an error or the application name,
  \<^verbatim>\<open>r.iris.Connect(app, rel)\<close> an error or a connection, \<^verbatim>\<open>rel.sendInit()\<close>
  possibly an error.
\<close>

record ('e, 'c) handshake =
  procInit_res :: "'e + string"
  Connect_res :: "string \<Rightarrow> 'e + 'c"
  sendInit_res :: "'c \<Rightarrow> 'e option"

text \<open>
  Of the \<^verbatim>\<open>relay\<close> struct: the carrier connection, whether the socket is open,
  whether the worker pool has been started and whether the \<^verbatim>\<open>process\<close> goroutine
  has been started. The request and tunnel tables are created empty and not touched by
  \<^verbatim>\<open>acceptRelay\<close>.
\<close>

record 'c relay =
  iris :: "'c option"
  sock_open :: bool
  workers_started :: bool
  process_started :: bool

text \<open>\<^verbatim>\<open>drop\<close>: \<^verbatim>\<open>r.sock.Close()\<close>.\<close>

definition drop_relay :: "'c relay \<Rightarrow> 'c relay" where
  "drop_relay r = r\<lparr>sock_open := False\<rparr>"

text \<open>
  \<^verbatim>\<open>acceptRelay\<close>: the relay object as the call leaves it, and the error returned
  (with a nil relay) or success (the relay is returned).
\<close>

definition acceptRelay :: "('e, 'c) handshake \<Rightarrow> 'c relay \<times> ('e + unit)" where
  "acceptRelay hs =
     (let rel = \<lparr>iris = None, sock_open = True, workers_started = False,
                 process_started = False\<rparr> in
      case procInit_res hs of
        Inl err \<Rightarrow> (drop_relay rel, Inl err)
      | Inr app \<Rightarrow>
          (case Connect_res hs app of
             Inl err \<Rightarrow> (drop_relay rel, Inl err)
           | Inr conn \<Rightarrow>
               (let rel = rel\<lparr>iris := Some conn\<rparr> in
                case sendInit_res hs conn of
                  Some err \<Rightarrow> (drop_relay rel, Inl err)
                | None \<Rightarrow> (rel\<lparr>workers_started := True, process_started := True\<rparr>, Inr ()))))"

text \<open>The relay was refused with this error: socket closed, nothing started.\<close>

definition refused :: "'c relay \<times> ('e + unit) \<Rightarrow> 'e \<Rightarrow> bool" where
  "refused res err =
     (snd res = Inl err \<and> \<not> sock_open (fst res) \<and> \<not> workers_started (fst res)
      \<and> \<not> process_started (fst res))"

section \<open>Properties of the monitor keys\<close>

lemma dead_topic_monitor_id:
  assumes "0 \<le> node" and "node < 2 ^ S"
  shows "dead_topic S (monitor_id S topic node) = topic"
proof -
  have "(topic * 2 ^ S + node) div 2 ^ S = topic + node div 2 ^ S"
    by simp
  also have "node div 2 ^ S = 0"
    using assms by simp
  finally show ?thesis
    by (simp add: dead_topic_def monitor_id_def push_bit_eq_mult drop_bit_eq_div)
qed

lemma dead_node_monitor_id:
  assumes "0 \<le> node" and "node < 2 ^ S"
  shows "dead_node S (monitor_id S topic node) = node"
  using dead_topic_monitor_id [OF assms, of topic]
  by (simp add: dead_node_def) (simp add: monitor_id_def)

text \<open>
  Claim C5. For non-negative \<open>topic\<close> and \<open>node\<close> with \<open>node < 2 ^ S\<close>, splitting
  the key \<open>(topic << S) + node\<close> the way \<^verbatim>\<open>Dead\<close> does gives back \<open>topic\<close> and
  \<open>node\<close>; hence two such pairs with the same key are the same pair.
\<close>

theorem monitor_id_round_trip:
  assumes "0 \<le> topic" and "0 \<le> node" and "node < 2 ^ S"
  shows "dead_topic S (monitor_id S topic node) = topic
       \<and> dead_node S (monitor_id S topic node) = node
       \<and> (\<forall>topic' node'. 0 \<le> topic' \<and> 0 \<le> node' \<and> node' < 2 ^ S
             \<and> monitor_id S topic' node' = monitor_id S topic node
           \<longrightarrow> topic' = topic \<and> node' = node)"
proof (intro conjI allI impI)
  show "dead_topic S (monitor_id S topic node) = topic"
    using assms by (simp add: dead_topic_monitor_id)
  show "dead_node S (monitor_id S topic node) = node"
    using assms by (simp add: dead_node_monitor_id)
next
  fix topic' node'
  assume h: "0 \<le> topic' \<and> 0 \<le> node' \<and> node' < 2 ^ S
             \<and> monitor_id S topic' node' = monitor_id S topic node"
  from h have r: "0 \<le> node'" "node' < 2 ^ S"
    by simp_all
  have "topic' = dead_topic S (monitor_id S topic' node')"
    by (simp add: dead_topic_monitor_id [OF r])
  also have "\<dots> = dead_topic S (monitor_id S topic node)"
    using h by presburger
  also have "\<dots> = topic"
    using assms by (simp add: dead_topic_monitor_id)
  finally show "topic' = topic" .
next
  fix topic' node'
  assume h: "0 \<le> topic' \<and> 0 \<le> node' \<and> node' < 2 ^ S
             \<and> monitor_id S topic' node' = monitor_id S topic node"
  from h have r: "0 \<le> node'" "node' < 2 ^ S"
    by simp_all
  have "node' = dead_node S (monitor_id S topic' node')"
    by (simp add: dead_node_monitor_id [OF r])
  also have "\<dots> = dead_node S (monitor_id S topic node)"
    using h by presburger
  also have "\<dots> = node"
    using assms by (simp add: dead_node_monitor_id)
  finally show "node' = node" .
qed

theorem monitor_id_round_trip_witness:
  "monitor_id 4 3 5 = 53 \<and> dead_topic 4 (monitor_id 4 3 5) = 3
   \<and> dead_node 4 (monitor_id 4 3 5) = 5"
proof -
  have k: "monitor_id 4 3 5 = 53"
    by (simp add: monitor_id_def push_bit_eq_mult)
  show ?thesis
    using monitor_id_round_trip [of 3 5 4] k by simp
qed

section \<open>Properties of the subscriptions\<close>

lemma remove_sub_eq: "remove_sub ident subs = (remove1 ident subs, ident \<in> set subs)"
  by (induction subs) auto

lemma maps_agree_New: "maps_agree New_Overlay"
  by (simp add: maps_agree_def New_Overlay_def)

lemma maps_agree_subscribe:
  "maps_agree ov \<Longrightarrow> maps_agree (fst (subscribe sres ov ident topic))"
  by (auto simp: maps_agree_def subscribe_def split: option.splits)

lemma maps_agree_unsubscribe:
  "maps_agree ov \<Longrightarrow> maps_agree (fst (unsubscribe sres ov ident topic))"
  by (auto simp: maps_agree_def unsubscribe_def remove_sub_eq Let_def split: option.splits)

lemma live_Some: "subLive ov topic = Some subs \<Longrightarrow> live ov topic = subs"
  by (simp add: live_def)

lemma Overlay_same_subLive:
  "subLive ov topic = Some subs \<Longrightarrow> ov\<lparr>subLive := (subLive ov)(topic \<mapsto> subs)\<rparr> = ov"
  by (simp add: map_upd_triv)

text \<open>
  Claim C2, as amended. A second \<^verbatim>\<open>subscribe\<close> with the same id and topic issues no
  call to the scribe layer and returns nil, and leaves the lock map alone; but it appends
  the id to the topic's list once more, so the id is listed one more time than after the
  first call.
\<close>

theorem subscribe_again_appends:
  fixes ov :: Overlay
  shows "(case subscribe sres ov ident topic of
            (ov1, eff1, res1) \<Rightarrow>
              (case subscribe sres' ov1 ident topic of
                 (ov2, eff2, res2) \<Rightarrow>
                   eff2 = [] \<and> res2 = None
                   \<and> subLock ov2 = subLock ov1
                   \<and> subLive ov2 = (subLive ov1)(topic \<mapsto> live ov1 topic @ [ident])
                   \<and> count_list (live ov2 topic) ident = count_list (live ov1 topic) ident + 1
                   \<and> 2 \<le> count_list (live ov2 topic) ident))"
  by (auto simp: subscribe_def live_def split: option.splits)

text \<open>
  The claim as stated fails: after two calls with id 1 on topic ``t'' the list is
  \<open>[1, 1]\<close>, not the \<open>[1]\<close> that one call leaves.
\<close>

theorem subscribe_twice_counterexample:
  "live (fst (subscribe (None :: unit option)
             (fst (subscribe (None :: unit option) New_Overlay 1 ''t'')) 1 ''t'')) ''t'' = [1, 1]
   \<and> live (fst (subscribe (None :: unit option) New_Overlay 1 ''t'')) ''t'' = [1]
   \<and> fst (subscribe (None :: unit option)
             (fst (subscribe (None :: unit option) New_Overlay 1 ''t'')) 1 ''t'')
       \<noteq> fst (subscribe (None :: unit option) New_Overlay 1 ''t'')"
proof -
  let ?one = "fst (subscribe (None :: unit option) New_Overlay 1 ''t'')"
  let ?two = "fst (subscribe (None :: unit option) ?one 1 ''t'')"
  have one: "live ?one ''t'' = [1]"
    by (simp add: subscribe_def New_Overlay_def live_def)
  have two: "live ?two ''t'' = [1, 1]"
    by (simp add: subscribe_def New_Overlay_def live_def)
  from one two have "?two \<noteq> ?one"
    by auto
  with one two show ?thesis
    by simp
qed

text \<open>
  Claim C4. Let \<open>ident\<close> be among the live subscribers of a topic that has its lock
  entry. If it is the only one left, \<^verbatim>\<open>unsubscribe\<close> deletes the topic from both maps
  and calls \<^verbatim>\<open>scribe.Unsubscribe(topic)\<close> once (that call is the only effect). If
  others remain, nothing is called, the lock entry stays and the topic keeps the list
  without the first occurrence of \<open>ident\<close>.
\<close>

theorem unsubscribe_last_drops_topic:
  assumes "subLock ov topic = Some lock" and "ident \<in> set (live ov topic)"
  shows "unsubscribe sres ov ident topic =
     (if live ov topic = [ident]
      then (ov\<lparr>subLive := (subLive ov)(topic := None),
               subLock := (subLock ov)(topic := None)\<rparr>,
            [ScribeUnsubscribe topic], map_option ScribeError sres)
      else (ov\<lparr>subLive := (subLive ov)(topic \<mapsto> remove1 ident (live ov topic))\<rparr>, [], None))
   \<and> (live ov topic \<noteq> [ident] \<longrightarrow> remove1 ident (live ov topic) \<noteq> [])"
proof -
  have rm: "remove1 ident (live ov topic) = [] \<longleftrightarrow> live ov topic = [ident]"
    using assms(2) by (cases "live ov topic") (auto split: if_splits)
  show ?thesis
    using assms rm by (simp add: unsubscribe_def remove_sub_eq Let_def)
qed

theorem unsubscribe_last_drops_topic_witness:
  "unsubscribe (None :: unit option) (fst (subscribe (None :: unit option) New_Overlay 7 ''t'')) 7 ''t''
     = (New_Overlay, [ScribeUnsubscribe ''t''], None)
   \<and> unsubscribe (None :: unit option)
        \<lparr>subLive = [''t'' \<mapsto> [7, 8]], subLock = [''t'' \<mapsto> ()]\<rparr> 7 ''t''
     = (\<lparr>subLive = [''t'' \<mapsto> [8]], subLock = [''t'' \<mapsto> ()]\<rparr>, [], None)"
proof -
  let ?ov = "fst (subscribe (None :: unit option) New_Overlay 7 ''t'')"
  let ?two = "\<lparr>subLive = [''t'' \<mapsto> [7, 8]], subLock = [''t'' \<mapsto> ()]\<rparr>"
  have l: "subLock ?ov ''t'' = Some ()"
    by (simp add: subscribe_def New_Overlay_def)
  have s: "live ?ov ''t'' = [7]"
    by (simp add: subscribe_def New_Overlay_def live_def)
  have m: "7 \<in> set (live ?ov ''t'')"
    using s by simp
  have e: "?ov\<lparr>subLive := (subLive ?ov)(''t'' := None), subLock := (subLock ?ov)(''t'' := None)\<rparr>
             = New_Overlay"
    by (simp add: subscribe_def New_Overlay_def)
  have a: "unsubscribe (None :: unit option) ?ov 7 ''t''
             = (New_Overlay, [ScribeUnsubscribe ''t''], None)"
    using unsubscribe_last_drops_topic [OF l m, of "None :: unit option"] s e by simp
  have l2: "subLock ?two ''t'' = Some ()"
    by simp
  have s2: "live ?two ''t'' = [7, 8]"
    by (simp add: live_def)
  have m2: "7 \<in> set (live ?two ''t'')"
    using s2 by simp
  have b: "unsubscribe (None :: unit option) ?two 7 ''t''
             = (\<lparr>subLive = [''t'' \<mapsto> [8]], subLock = [''t'' \<mapsto> ()]\<rparr>, [], None)"
    using unsubscribe_last_drops_topic [OF l2 m2, of "None :: unit option"] s2 by simp
  from a b show ?thesis
    by simp
qed

text \<open>
  Claim C6. On an overlay whose two maps have the same keys (every overlay built from
  \<^verbatim>\<open>New\<close> by \<^verbatim>\<open>subscribe\<close> and \<^verbatim>\<open>unsubscribe\<close> is one), \<^verbatim>\<open>unsubscribe\<close>
  returns \<^verbatim>\<open>ErrNotSubscribed\<close> exactly when the topic has no entry or the id is not
  in the topic's list, and then both maps are as before.
\<close>

theorem unsubscribe_not_subscribed:
  assumes "maps_agree ov"
  shows "(snd (snd (unsubscribe sres ov ident topic)) = Some ErrNotSubscribed
            \<longleftrightarrow> subLive ov topic = None \<or> ident \<notin> set (live ov topic))
       \<and> (snd (snd (unsubscribe sres ov ident topic)) = Some ErrNotSubscribed
            \<longrightarrow> fst (unsubscribe sres ov ident topic) = ov)"
proof (cases "subLock ov topic")
  case None
  then have "subLive ov topic = None"
    using assms by (auto simp: maps_agree_def)
  with None show ?thesis
    by (simp add: unsubscribe_def)
next
  case (Some lock)
  then obtain subs where subs: "subLive ov topic = Some subs"
    using assms by (auto simp: maps_agree_def)
  show ?thesis
  proof (cases "ident \<in> set subs")
    case True
    with Some subs show ?thesis
      by (cases sres) (simp_all add: unsubscribe_def remove_sub_eq Let_def live_Some)
  next
    case False
    then have "remove1 ident subs = subs"
      by (simp add: remove1_idem)
    with False Some subs show ?thesis
      by (simp add: unsubscribe_def remove_sub_eq Let_def live_Some Overlay_same_subLive)
  qed
qed

theorem unsubscribe_not_subscribed_witness:
  "maps_agree (fst (subscribe (None :: unit option) New_Overlay 1 ''t''))
   \<and> unsubscribe (None :: unit option) (fst (subscribe (None :: unit option) New_Overlay 1 ''t'')) 2 ''t''
       = (fst (subscribe (None :: unit option) New_Overlay 1 ''t''),
          [LogNoSubscription ''t'' 2], Some ErrNotSubscribed)
   \<and> snd (snd (unsubscribe (None :: unit option) New_Overlay 2 ''t'')) = Some ErrNotSubscribed
   \<and> snd (snd (unsubscribe (None :: unit option)
         (fst (subscribe (None :: unit option) New_Overlay 1 ''t'')) 1 ''t'')) \<noteq> Some ErrNotSubscribed"
proof -
  let ?ov = "fst (subscribe (None :: unit option) New_Overlay 1 ''t'')"
  have a: "maps_agree ?ov"
    by (rule maps_agree_subscribe [OF maps_agree_New])
  have s: "live ?ov ''t'' = [1]" "subLive ?ov ''t'' = Some [1]"
    by (simp_all add: subscribe_def New_Overlay_def live_def)
  have "snd (snd (unsubscribe (None :: unit option) ?ov 2 ''t'')) = Some ErrNotSubscribed
        \<and> fst (unsubscribe (None :: unit option) ?ov 2 ''t'') = ?ov"
    using unsubscribe_not_subscribed [OF a, of "None :: unit option" 2 "''t''"] s by simp
  moreover have "fst (snd (unsubscribe (None :: unit option) ?ov 2 ''t'')) = [LogNoSubscription ''t'' 2]"
    by (simp add: unsubscribe_def subscribe_def New_Overlay_def live_def)
  ultimately have u: "unsubscribe (None :: unit option) ?ov 2 ''t''
       = (?ov, [LogNoSubscription ''t'' 2], Some ErrNotSubscribed)"
    by (metis prod.collapse)
  have n: "snd (snd (unsubscribe (None :: unit option) New_Overlay 2 ''t'')) = Some ErrNotSubscribed"
    using unsubscribe_not_subscribed [OF maps_agree_New, of "None :: unit option" 2 "''t''"]
    by (simp add: New_Overlay_def)
  have k: "snd (snd (unsubscribe (None :: unit option) ?ov 1 ''t'')) \<noteq> Some ErrNotSubscribed"
    using unsubscribe_not_subscribed [OF a, of "None :: unit option" 1 "''t''"] s by simp
  from a u n k show ?thesis
    by simp
qed

section \<open>Properties of the decimal text\<close>

lemma digit_char_props:
  assumes "d < 10"
  shows "is_digit (digit_char d)" and "digit_val (digit_char d) = d"
    and "digit_char d \<noteq> CHR ''-''" and "digit_char d \<noteq> CHR ''+''"
proof -
  have v: "(of_char (digit_char d) :: nat) = 48 + d"
    using assms by (simp add: digit_char_def)
  show "is_digit (digit_char d)"
    using assms by (simp add: is_digit_def v)
  show "digit_val (digit_char d) = d"
    by (simp add: digit_val_def v)
  have "(of_char (digit_char d) :: nat) \<noteq> of_char CHR ''-''"
    using assms by (simp add: v)
  then show "digit_char d \<noteq> CHR ''-''"
    by auto
  have "(of_char (digit_char d) :: nat) \<noteq> of_char CHR ''+''"
    using assms by (simp add: v)
  then show "digit_char d \<noteq> CHR ''+''"
    by auto
qed

lemma nat_digits_scan:
  "nat_digits n \<noteq> [] \<and> list_all is_digit (nat_digits n)
   \<and> foldl (\<lambda>a c. 10 * a + digit_val c) 0 (nat_digits n) = n"
proof (induction n rule: nat_digits.induct)
  case (1 n)
  show ?case
  proof (cases "n < 10")
    case True
    then show ?thesis
      by (simp add: nat_digits.simps [of n] digit_char_props)
  next
    case False
    have m: "n mod 10 < 10"
      by simp
    from False 1 show ?thesis
      by (simp add: nat_digits.simps [of n] digit_char_props [OF m])
  qed
qed

lemma scan_nat_digits: "scan_nat (nat_digits n) = Some n"
  using nat_digits_scan [of n] by (simp add: scan_nat_def)

lemma nat_digits_head:
  "\<exists>c cs. nat_digits n = c # cs \<and> c \<noteq> CHR ''-'' \<and> c \<noteq> CHR ''+''"
proof (induction n rule: nat_digits.induct)
  case (1 n)
  show ?case
  proof (cases "n < 10")
    case True
    then show ?thesis
      by (simp add: nat_digits.simps [of n] digit_char_props)
  next
    case False
    with 1 obtain c cs where "nat_digits (n div 10) = c # cs" "c \<noteq> CHR ''-''" "c \<noteq> CHR ''+''"
      by auto
    with False show ?thesis
      by (simp add: nat_digits.simps [of n])
  qed
qed

lemma SetString_decimal: "big_SetString10 (decimal x) = Some x"
proof (cases "x < 0")
  case True
  then show ?thesis
    by (simp add: big_SetString10_def decimal_def scan_nat_digits)
next
  case False
  obtain c cs where h: "nat_digits (nat x) = c # cs" "c \<noteq> CHR ''-''" "c \<noteq> CHR ''+''"
    using nat_digits_head by blast
  have "scan_nat (c # cs) = Some (nat x)"
    using scan_nat_digits [of "nat x"] h(1) by simp
  with False h show ?thesis
    by (simp add: big_SetString10_def decimal_def)
qed

lemma SetString_String_Some: "big_SetString10 (big_String (Some x)) = Some x"
  by (simp add: big_String_def SetString_decimal)

lemma SetString_String_nil: "big_SetString10 (big_String None) = None"
  by (simp add: big_String_def big_SetString10_def scan_nat_def is_digit_def)

lemma SetString_String: "big_SetString10 (big_String p) = p"
  by (cases p) (simp_all add: SetString_String_Some SetString_String_nil)

lemma big_String_inj: "big_String a = big_String b \<Longrightarrow> a = b"
  by (metis SetString_String)

section \<open>Properties of the heartbeat handlers\<close>

lemma add_report_keys:
  "fst ` set (add_report reps sid t c) = insert sid (fst ` set reps)"
  by (induction reps sid t c rule: add_report.induct) auto

lemma add_report_distinct:
  "distinct (map fst reps) \<Longrightarrow> distinct (map fst (add_report reps sid t c))"
proof (induction reps sid t c rule: add_report.induct)
  case (1 sid t c)
  then show ?case by simp
next
  case (2 k rep reps sid t c)
  then show ?case
    using add_report_keys [of reps sid t c] by auto
qed

lemma add_report_even:
  "even_reports reps \<Longrightarrow> even_reports (add_report reps sid t c)"
  by (induction reps sid t c rule: add_report.induct) (auto simp: even_reports_def)

lemma add_report_pairs:
  "even_reports reps \<Longrightarrow>
   rep_pairs (add_report reps sid t c) sid' =
     rep_pairs reps sid' @ (if sid' = sid then [(t, c)] else [])"
  by (induction reps sid t c rule: add_report.induct)
     (auto simp: even_reports_def rep_pairs_def)

lemma bucket_fold:
  "i + length ids \<le> length caps \<Longrightarrow>
   bucket slf caps i ids reps =
     Inr (foldl add_entry reps (map (\<lambda>(n, c). (n, slf, c)) (zip ids (drop i caps))))"
proof (induction ids arbitrary: i reps)
  case Nil
  then show ?case by simp
next
  case (Cons n ids)
  then have i: "i < length caps" and s: "Suc i + length ids \<le> length caps"
    by simp_all
  have d: "drop i caps = caps ! i # drop (Suc i) caps"
    using i by (simp add: Cons_nth_drop_Suc)
  show ?case
    using i Cons.IH [OF s] by (simp add: d add_entry_def)
qed

lemma bucket_short:
  "i \<le> length caps \<Longrightarrow> \<not> i + length ids \<le> length caps \<Longrightarrow>
   bucket slf caps i ids reps = Inl IndexOutOfRange"
proof (induction ids arbitrary: i reps)
  case Nil
  then show ?case by simp
next
  case (Cons n ids)
  show ?case
  proof (cases "i < length caps")
    case True
    then have "Suc i \<le> length caps" and "\<not> Suc i + length ids \<le> length caps"
      using Cons.prems by simp_all
    then show ?thesis
      using True Cons.IH by simp
  next
    case False
    then show ?thesis by simp
  qed
qed

lemma collect_fold:
  "caps_cover topics \<Longrightarrow>
   collect topics reps calls =
     Inr (foldl add_entry reps (report_lines topics), calls @ map (\<lambda>kt. Cycle (fst kt)) topics)"
proof (induction topics arbitrary: reps calls)
  case Nil
  then show ?case by (simp add: report_lines_def)
next
  case (Cons kt topics)
  obtain k tp where kt: "kt = (k, tp)"
    by (cases kt)
  from Cons.prems kt have l: "0 + length (report_ids tp) \<le> length (report_caps tp)"
    and c: "caps_cover topics"
    by (simp_all add: caps_cover_def)
  show ?case
    using Cons.IH [OF c] bucket_fold [OF l]
    by (simp add: kt report_lines_def)
qed

lemma collect_short:
  "\<not> caps_cover topics \<Longrightarrow> collect topics reps calls = Inl IndexOutOfRange"
proof (induction topics arbitrary: reps calls)
  case Nil
  then show ?case by (simp add: caps_cover_def)
next
  case (Cons kt topics)
  obtain k tp where kt: "kt = (k, tp)"
    by (cases kt)
  show ?case
  proof (cases "length (report_ids tp) \<le> length (report_caps tp)")
    case True
    then have "\<not> caps_cover topics"
      using Cons.prems kt by (simp add: caps_cover_def)
    then have "\<And>r c. collect topics r c = Inl IndexOutOfRange"
      by (rule Cons.IH)
    moreover from True have "0 + length (report_ids tp) \<le> length (report_caps tp)"
      by simp
    ultimately show ?thesis
      by (simp add: kt bucket_fold)
  next
    case False
    then have "bucket (self tp) (report_caps tp) 0 (report_ids tp) reps = Inl IndexOutOfRange"
      by (intro bucket_short) simp_all
    then show ?thesis
      by (simp add: kt)
  qed
qed

lemma distribute_eq:
  "distribute reps calls =
     (if parse_ok reps
      then Inr (calls @ map (\<lambda>kr. SendReport (the (big_SetString10 (fst kr))) (snd kr)) reps)
      else Inl ExtractNodeId)"
proof (induction reps calls rule: distribute.induct)
  case (1 calls)
  then show ?case by (simp add: parse_ok_def)
next
  case (2 sid rep reps calls)
  show ?case
  proof (cases "big_SetString10 sid")
    case None
    then show ?thesis by (simp add: parse_ok_def)
  next
    case (Some n)
    have "parse_ok ((sid, rep) # reps) = parse_ok reps"
      using Some by (simp add: parse_ok_def)
    then show ?thesis
      using Some 2 [OF Some] by simp
  qed
qed

lemma resubscribe_eq:
  "resubscribe topics calls =
     calls @ map (\<lambda>kt. SendSubscribe (self (snd kt))) (filter (\<lambda>kt. parent (snd kt) = None) topics)"
  by (induction topics calls rule: resubscribe.induct) auto

lemma group_keys:
  "fst ` set (foldl add_entry reps es) = fst ` set reps \<union> (\<lambda>e. big_String (fst e)) ` set es"
proof (induction es arbitrary: reps)
  case Nil
  then show ?case by simp
next
  case (Cons e es)
  obtain n t c where e: "e = (n, t, c)"
    by (cases e)
  have "fst ` set (add_entry reps e) = insert (big_String n) (fst ` set reps)"
    by (simp add: add_entry_def e add_report_keys)
  then show ?case
    using Cons.IH [of "add_entry reps e"] by (simp add: e)
qed

lemma group_distinct:
  "distinct (map fst reps) \<Longrightarrow> distinct (map fst (foldl add_entry reps es))"
  by (induction es arbitrary: reps) (auto simp: add_entry_def add_report_distinct)

lemma group_even:
  "even_reports reps \<Longrightarrow> even_reports (foldl add_entry reps es)"
  by (induction es arbitrary: reps) (auto simp: add_entry_def add_report_even)

lemma group_pairs:
  "even_reports reps \<Longrightarrow>
   rep_pairs (foldl add_entry reps es) sid =
     rep_pairs reps sid @ map snd (filter (\<lambda>e. big_String (fst e) = sid) es)"
proof (induction es arbitrary: reps)
  case Nil
  then show ?case by simp
next
  case (Cons e es)
  obtain n t c where e: "e = (n, t, c)"
    by (cases e)
  have ev: "even_reports (add_entry reps e)"
    using Cons.prems by (simp add: add_entry_def e add_report_even)
  show ?case
    using Cons.IH [OF ev] Cons.prems
    by (auto simp: e add_entry_def add_report_pairs)
qed

lemma group_parse: "parse_ok (foldl add_entry [] es) \<longleftrightarrow> None \<notin> fst ` set es"
proof -
  have "parse_ok (foldl add_entry [] es)
          \<longleftrightarrow> (\<forall>k \<in> fst ` set (foldl add_entry [] es). big_SetString10 k \<noteq> None)"
    by (simp add: parse_ok_def list_all_iff)
  also have "\<dots> \<longleftrightarrow> (\<forall>e \<in> set es. big_SetString10 (big_String (fst e)) \<noteq> None)"
    using group_keys [of "[]" es] by simp
  also have "\<dots> \<longleftrightarrow> (\<forall>e \<in> set es. fst e \<noteq> None)"
    by (simp add: SetString_String)
  also have "\<dots> \<longleftrightarrow> None \<notin> fst ` set es"
    by force
  finally show ?thesis .
qed

lemma report_lines_ids:
  "caps_cover topics \<Longrightarrow>
   fst ` set (report_lines topics) = (\<Union>kt \<in> set topics. set (report_ids (snd kt)))"
proof (induction topics)
  case Nil
  then show ?case by (simp add: report_lines_def)
next
  case (Cons kt topics)
  obtain k tp where kt: "kt = (k, tp)"
    by (cases kt)
  from Cons.prems kt have l: "length (report_ids tp) \<le> length (report_caps tp)"
    and c: "caps_cover topics"
    by (simp_all add: caps_cover_def)
  have "map fst (zip (report_ids tp) (report_caps tp)) = report_ids tp"
    using l by (simp add: map_fst_zip_take)
  then have z: "fst ` set (zip (report_ids tp) (report_caps tp)) = set (report_ids tp)"
    by (metis set_map)
  have h: "fst ` (\<lambda>(n, c). (n, self tp, c)) ` set (zip (report_ids tp) (report_caps tp))
             = set (report_ids tp)"
    unfolding z [symmetric] by force
  have "report_lines (kt # topics)
          = map (\<lambda>(n, c). (n, self tp, c)) (zip (report_ids tp) (report_caps tp))
            @ report_lines topics"
    by (simp add: report_lines_def kt)
  then show ?case
    using Cons.IH [OF c] h by (simp add: kt image_Un)
qed

lemma nil_id_iff: "nil_id topics \<longleftrightarrow> None \<in> (\<Union>kt \<in> set topics. set (report_ids (snd kt)))"
  by (auto simp: nil_id_def list_ex_iff)

lemma ids_present_iff: "ids_present topics \<longleftrightarrow> \<not> nil_id topics"
  by (auto simp: ids_present_def nil_id_def list_all_iff list_ex_iff)

lemma Beat_cases:
  "Beat topics =
     (if \<not> caps_cover topics then Inl IndexOutOfRange
      else if nil_id topics then Inl ExtractNodeId
      else Inr (map (\<lambda>kt. Cycle (fst kt)) topics
          @ map (\<lambda>kr. SendReport (the (big_SetString10 (fst kr))) (snd kr)) (grouped topics)
          @ map (\<lambda>kt. SendSubscribe (self (snd kt))) (filter (\<lambda>kt. parent (snd kt) = None) topics)))"
proof (cases "caps_cover topics")
  case False
  then show ?thesis
    by (simp add: Beat_def collect_short)
next
  case True
  have "parse_ok (grouped topics) \<longleftrightarrow> \<not> nil_id topics"
    unfolding grouped_def group_parse report_lines_ids [OF True] nil_id_iff ..
  then show ?thesis
    using True
    by (simp add: Beat_def collect_fold distribute_eq resubscribe_eq grouped_def)
qed



lemma cycles_of_append: "cycles_of (xs @ ys) = cycles_of xs @ cycles_of ys"
  by (induction xs rule: cycles_of.induct) auto

lemma reports_of_append: "reports_of (xs @ ys) = reports_of xs @ reports_of ys"
  by (induction xs rule: reports_of.induct) auto

lemma subscribes_of_append: "subscribes_of (xs @ ys) = subscribes_of xs @ subscribes_of ys"
  by (induction xs rule: subscribes_of.induct) auto

lemma of_Cycles:
  "cycles_of (map (\<lambda>kt. Cycle (fst kt)) ts) = map fst ts"
  "reports_of (map (\<lambda>kt. Cycle (fst kt)) ts) = []"
  "subscribes_of (map (\<lambda>kt. Cycle (fst kt)) ts) = []"
  by (induction ts) auto

lemma of_SendReports:
  "cycles_of (map (\<lambda>kr. SendReport (f kr) (g kr)) rs) = []"
  "reports_of (map (\<lambda>kr. SendReport (f kr) (g kr)) rs) = map (\<lambda>kr. (f kr, g kr)) rs"
  "subscribes_of (map (\<lambda>kr. SendReport (f kr) (g kr)) rs) = []"
  by (induction rs) auto

lemma of_SendSubscribes:
  "cycles_of (map (\<lambda>kt. SendSubscribe (h kt)) ts) = []"
  "reports_of (map (\<lambda>kt. SendSubscribe (h kt)) ts) = []"
  "subscribes_of (map (\<lambda>kt. SendSubscribe (h kt)) ts) = map h ts"
  by (induction ts) auto

lemma Beat_eq:
  assumes "caps_cover topics" and "ids_present topics"
  shows "Beat topics =
     Inr (map (\<lambda>kt. Cycle (fst kt)) topics
          @ map (\<lambda>kr. SendReport (the (big_SetString10 (fst kr))) (snd kr)) (grouped topics)
          @ map (\<lambda>kt. SendSubscribe (self (snd kt))) (filter (\<lambda>kt. parent (snd kt) = None) topics))"
  using assms by (simp add: Beat_cases ids_present_iff)

lemma present_lines:
  "None \<notin> fst ` set ls \<Longrightarrow>
   ls = map (\<lambda>(m, t, c). (Some m, t, c))
          (concat (map (\<lambda>(n, t, c). case n of None \<Rightarrow> [] | Some m \<Rightarrow> [(m, t, c)]) ls))"
proof (induction ls)
  case Nil
  then show ?case by simp
next
  case (Cons l ls)
  obtain n t c where l: "l = (n, t, c)"
    by (cases l)
  from Cons.prems l obtain m where n: "n = Some m"
    by (cases n) auto
  from Cons.prems have "None \<notin> fst ` set ls"
    by auto
  from Cons.IH [OF this] show ?case
    by (simp add: l n)
qed

lemma report_lines_entries:
  assumes "caps_cover topics" and "ids_present topics"
  shows "report_lines topics = map (\<lambda>(m, t, c). (Some m, t, c)) (entries topics)"
proof -
  have "None \<notin> fst ` set (report_lines topics)"
    using assms by (simp add: report_lines_ids ids_present_iff nil_id_iff)
  then show ?thesis
    unfolding entries_def by (rule present_lines)
qed

lemma filter_present:
  "map snd (filter (\<lambda>e. fst e = Some m) (map (\<lambda>(m, t, c). (Some m, t, c)) es))
     = map snd (filter (\<lambda>e. fst e = m) es)"
  by (induction es) auto

lemma grouped_member:
  assumes "caps_cover topics" and "ids_present topics"
    and "(k, rep) \<in> set (grouped topics)"
  shows "\<exists>m. k = big_String (Some m) \<and> m \<in> fst ` set (entries topics)
           \<and> length (Tops rep) = length (Caps rep)
           \<and> zip (Tops rep) (Caps rep) = map snd (filter (\<lambda>e. fst e = m) (entries topics))"
proof -
  let ?ls = "report_lines topics"
  let ?es = "entries topics"
  have ls: "?ls = map (\<lambda>(m, t, c). (Some m, t, c)) ?es"
    by (rule report_lines_entries [OF assms(1,2)])
  have "k \<in> fst ` set (grouped topics)"
    using assms(3) by force
  then have "k \<in> (\<lambda>e. big_String (fst e)) ` set ?ls"
    using group_keys [of "[]" ?ls] by (simp add: grouped_def)
  then obtain e where e: "e \<in> set ?es" "k = big_String (Some (fst e))"
    unfolding ls by auto
  have d: "distinct (map fst (grouped topics))"
    unfolding grouped_def by (rule group_distinct) simp
  then have m: "map_of (grouped topics) k = Some rep"
    using assms(3) by simp
  have ev: "even_reports (grouped topics)"
    unfolding grouped_def by (rule group_even) (simp add: even_reports_def)
  then have len: "length (Tops rep) = length (Caps rep)"
    using assms(3) by (auto simp: even_reports_def list_all_iff)
  have "rep_pairs (grouped topics) k = map snd (filter (\<lambda>e. big_String (fst e) = k) ?ls)"
    unfolding grouped_def using group_pairs [of "[]" ?ls k]
    by (simp add: even_reports_def rep_pairs_def)
  then have z: "zip (Tops rep) (Caps rep) = map snd (filter (\<lambda>e. big_String (fst e) = k) ?ls)"
    using m by (simp add: rep_pairs_def)
  have f: "(\<lambda>x. big_String (fst x) = k) = (\<lambda>x. fst x = Some (fst e))"
    using e(2) big_String_inj by auto
  have z': "zip (Tops rep) (Caps rep) = map snd (filter (\<lambda>x. fst x = fst e) ?es)"
    using z unfolding f ls filter_present .
  show ?thesis
    by (rule exI [of _ "fst e"]) (use e len z' in simp)
qed

lemma grouped_dests:
  assumes "caps_cover topics" and "ids_present topics"
  shows "distinct (map (\<lambda>kr. the (big_SetString10 (fst kr))) (grouped topics))"
    and "(\<lambda>kr. the (big_SetString10 (fst kr))) ` set (grouped topics) = fst ` set (entries topics)"
proof -
  let ?ls = "report_lines topics"
  let ?es = "entries topics"
  have ls: "?ls = map (\<lambda>(m, t, c). (Some m, t, c)) ?es"
    by (rule report_lines_entries [OF assms])
  have "fst ` set (grouped topics) = (\<lambda>e. big_String (fst e)) ` set ?ls"
    using group_keys [of "[]" ?ls] by (simp add: grouped_def)
  also have "\<dots> = (\<lambda>e. big_String (Some (fst e))) ` set ?es"
    unfolding ls by force
  finally have keys: "fst ` set (grouped topics) = (\<lambda>e. big_String (Some (fst e))) ` set ?es" .
  have d: "distinct (map fst (grouped topics))"
    unfolding grouped_def by (rule group_distinct) simp
  have inj: "inj_on (\<lambda>k. the (big_SetString10 k)) (fst ` set (grouped topics))"
    unfolding keys by (rule inj_onI) (auto simp: SetString_String_Some)
  have "distinct (map (\<lambda>k. the (big_SetString10 k)) (map fst (grouped topics)))"
    by (subst distinct_map) (use d inj in simp)
  then show "distinct (map (\<lambda>kr. the (big_SetString10 (fst kr))) (grouped topics))"
    by (simp add: comp_def)
  have "(\<lambda>kr. the (big_SetString10 (fst kr))) ` set (grouped topics)
          = (\<lambda>k. the (big_SetString10 k)) ` fst ` set (grouped topics)"
    by (simp add: image_image)
  also have "\<dots> = fst ` set ?es"
    unfolding keys by (simp add: image_image SetString_String_Some)
  finally show "(\<lambda>kr. the (big_SetString10 (fst kr))) ` set (grouped topics) = fst ` set ?es" .
qed

text \<open>
  Claim C8. When every topic's report has a capacity for each of its node ids, and the
  ids are node ids (none is nil), \<^verbatim>\<open>Beat\<close> runs to its end and: \<^verbatim>\<open>Cycle()\<close> is
  called on every topic, once each; the load reports sent go to pairwise different nodes,
  and these are exactly the nodes that occur in some topic's report; each report sent
  holds, in parallel slices, exactly the (topic, capacity) lines addressed to its node;
  and a subscription is sent for exactly the topics whose parent is nil.
\<close>

theorem Beat_reports_cycles_subscribes:
  assumes "caps_cover topics" and "ids_present topics"
  shows "\<exists>calls. Beat topics = Inr calls
     \<and> cycles_of calls = map fst topics
     \<and> distinct (map fst (reports_of calls))
     \<and> fst ` set (reports_of calls) = fst ` set (entries topics)
     \<and> (\<forall>(n, rep) \<in> set (reports_of calls).
           length (Tops rep) = length (Caps rep)
           \<and> zip (Tops rep) (Caps rep) = map snd (filter (\<lambda>e. fst e = n) (entries topics)))
     \<and> subscribes_of calls
         = map (\<lambda>kt. self (snd kt)) (filter (\<lambda>kt. parent (snd kt) = None) topics)"
proof -
  let ?calls = "map (\<lambda>kt. Cycle (fst kt)) topics
          @ map (\<lambda>kr. SendReport (the (big_SetString10 (fst kr))) (snd kr)) (grouped topics)
          @ map (\<lambda>kt. SendSubscribe (self (snd kt))) (filter (\<lambda>kt. parent (snd kt) = None) topics)"
  have b: "Beat topics = Inr ?calls"
    by (rule Beat_eq [OF assms])
  have c: "cycles_of ?calls = map fst topics"
    by (simp add: cycles_of_append of_Cycles of_SendReports of_SendSubscribes)
  have r: "reports_of ?calls = map (\<lambda>kr. (the (big_SetString10 (fst kr)), snd kr)) (grouped topics)"
    by (simp add: reports_of_append of_Cycles of_SendReports of_SendSubscribes)
  have s: "subscribes_of ?calls
         = map (\<lambda>kt. self (snd kt)) (filter (\<lambda>kt. parent (snd kt) = None) topics)"
    by (simp add: subscribes_of_append of_Cycles of_SendReports of_SendSubscribes)
  have d: "distinct (map fst (reports_of ?calls))"
    unfolding r using grouped_dests(1) [OF assms] by (simp add: comp_def)
  have k: "fst ` set (reports_of ?calls) = fst ` set (entries topics)"
    unfolding r using grouped_dests(2) [OF assms] by (simp add: image_image)
  have m: "\<forall>(n, rep) \<in> set (reports_of ?calls).
           length (Tops rep) = length (Caps rep)
           \<and> zip (Tops rep) (Caps rep) = map snd (filter (\<lambda>e. fst e = n) (entries topics))"
  proof (clarify)
    fix n rep
    assume "(n, rep) \<in> set (reports_of ?calls)"
    then obtain k where kr: "(k, rep) \<in> set (grouped topics)" and n: "n = the (big_SetString10 k)"
      unfolding r by auto
    from grouped_member [OF assms kr] obtain n' where
      h: "k = big_String (Some n')" "length (Tops rep) = length (Caps rep)"
         "zip (Tops rep) (Caps rep) = map snd (filter (\<lambda>e. fst e = n') (entries topics))"
      by blast
    have "n = n'"
      using n h(1) by (simp add: SetString_String_Some)
    with h show "length (Tops rep) = length (Caps rep)
           \<and> zip (Tops rep) (Caps rep) = map snd (filter (\<lambda>e. fst e = n) (entries topics))"
      by simp
  qed
  from b c d k m s show ?thesis
    by blast
qed

theorem Beat_reports_cycles_subscribes_witness:
  "caps_cover example_topics
   \<and> ids_present example_topics
   \<and> (\<exists>calls. Beat example_topics = Inr calls
         \<and> cycles_of calls = [''5'', ''9'']
         \<and> distinct (map fst (reports_of calls))
         \<and> fst ` set (reports_of calls) = {7, 8}
         \<and> subscribes_of calls = [5])"
proof -
  have c: "caps_cover example_topics"
    by (simp add: caps_cover_def example_topics_def)
  have p: "ids_present example_topics"
    by (simp add: ids_present_def example_topics_def)
  have e: "fst ` set (entries example_topics) = {7, 8}"
    by (auto simp: entries_def report_lines_def example_topics_def)
  have k: "map fst example_topics = [''5'', ''9'']"
    by (simp add: example_topics_def)
  have s: "map (\<lambda>kt. self (snd kt)) (filter (\<lambda>kt. parent (snd kt) = None) example_topics) = [5]"
    by (simp add: example_topics_def)
  show ?thesis
    using Beat_reports_cycles_subscribes [OF c p] c p unfolding e k s by blast
qed

text \<open>
  Claim C3. \<^verbatim>\<open>Dead\<close> splits the id into \<open>topic = id >> S\<close> and
  \<open>node = id - (topic << S)\<close>, that is, into the quotient and the remainder of the id
  by \<open>2 ^ S\<close>. If the topic map has this topic and this node is the topic's parent,
  the id is unmonitored from the heart and \<^verbatim>\<open>Reown(nil)\<close> is called on the topic
  (a failed unmonitor is logged in between). If the topic map has the topic and the node
  is not its parent, the one thing done is the call
  \<^verbatim>\<open>handleUnsubscribe(node, topic, false)\<close>.
\<close>

theorem Dead_reowns_or_unsubscribes:
  assumes "map_of topics (big_String (Some (drop_bit S ident))) = Some tp"
  shows "Dead S unmon topics ident =
     (if parent tp = Some (ident - push_bit S (drop_bit S ident))
      then [HeartUnmonitor ident]
           @ (case unmon of None \<Rightarrow> []
              | Some err \<Rightarrow> [LogUnmonitorFailed (ident - push_bit S (drop_bit S ident))
                                                 (drop_bit S ident)])
           @ [Reown (big_String (Some (drop_bit S ident))) None]
      else [HandleUnsubscribe (ident - push_bit S (drop_bit S ident)) (drop_bit S ident) False])
     \<and> drop_bit S ident = ident div 2 ^ S
     \<and> ident - push_bit S (drop_bit S ident) = ident mod 2 ^ S"
proof (intro conjI)
  show "Dead S unmon topics ident =
     (if parent tp = Some (ident - push_bit S (drop_bit S ident))
      then [HeartUnmonitor ident]
           @ (case unmon of None \<Rightarrow> []
              | Some err \<Rightarrow> [LogUnmonitorFailed (ident - push_bit S (drop_bit S ident))
                                                 (drop_bit S ident)])
           @ [Reown (big_String (Some (drop_bit S ident))) None]
      else [HandleUnsubscribe (ident - push_bit S (drop_bit S ident)) (drop_bit S ident) False])"
    using assms by (simp add: Dead_def Let_def dead_topic_def dead_node_def)
  show "drop_bit S ident = ident div 2 ^ S"
    by (simp add: drop_bit_eq_div)
  show "ident - push_bit S (drop_bit S ident) = ident mod 2 ^ S"
    by (simp add: push_bit_eq_mult drop_bit_eq_div minus_div_mult_eq_mod)
qed

theorem Dead_reowns_or_unsubscribes_witness:
  "Dead 4 (None :: unit option) example_topics 151 = [HeartUnmonitor 151, Reown ''9'' None]
   \<and> Dead 4 (None :: unit option) example_topics 152 = [HandleUnsubscribe 8 9 False]
   \<and> Dead 4 (None :: unit option) example_topics 87 = [HandleUnsubscribe 7 5 False]
   \<and> Dead 4 (Some ()) example_topics 151
       = [HeartUnmonitor 151, LogUnmonitorFailed 7 9, Reown ''9'' None]"
proof -
  have t: "drop_bit 4 (151 :: int) = 9" "drop_bit 4 (152 :: int) = 9" "drop_bit 4 (87 :: int) = 5"
    by (simp_all add: drop_bit_eq_div)
  have n: "(151 :: int) - push_bit 4 (9 :: int) = 7" "(152 :: int) - push_bit 4 (9 :: int) = 8"
    "(87 :: int) - push_bit 4 (5 :: int) = 7"
    by (simp_all add: push_bit_eq_mult)
  have s: "big_String (Some 9) = ''9''" "big_String (Some 5) = ''5''"
    by code_simp+
  have nine: "map_of example_topics (big_String (Some (drop_bit 4 151)))
             = Some \<lparr>self = 9, parent = Some 7, report_ids = [Some 7], report_caps = [2]\<rparr>"
    and nine': "map_of example_topics (big_String (Some (drop_bit 4 152)))
             = Some \<lparr>self = 9, parent = Some 7, report_ids = [Some 7], report_caps = [2]\<rparr>"
    and five: "map_of example_topics (big_String (Some (drop_bit 4 87)))
             = Some \<lparr>self = 5, parent = None, report_ids = [Some 7, Some 8],
                     report_caps = [3, 4]\<rparr>"
    by (simp_all add: t s example_topics_def)
  show ?thesis
    using Dead_reowns_or_unsubscribes [OF nine, of "None :: unit option"]
          Dead_reowns_or_unsubscribes [OF nine', of "None :: unit option"]
          Dead_reowns_or_unsubscribes [OF five, of "None :: unit option"]
          Dead_reowns_or_unsubscribes [OF nine, of "Some ()"]
    by (simp add: t n s)
qed

section \<open>Properties of the gobber\<close>

lemma Init_types: "types (fst (Init c g msg)) = types g @ [msg]"
  by (simp add: Init_def Let_def split: prod.splits option.splits)

lemma Init_retype:
  "Init c (g\<lparr>types := ts\<rparr>) msg
     = (fst (Init c g msg)\<lparr>types := ts @ [msg]\<rparr>, snd (Init c g msg))"
  by (simp add: Init_def Let_def split: prod.splits option.splits)

lemma reinit_types: "reinit c g msgs = Inr g' \<Longrightarrow> types g' = types g @ msgs"
proof (induction msgs arbitrary: g)
  case Nil
  then show ?case by simp
next
  case (Cons msg msgs)
  obtain h r where i: "Init c g msg = (h, r)"
    by (cases "Init c g msg")
  with Cons.prems have r: "r = None" and n: "reinit c h msgs = Inr g'"
    by (auto split: option.splits)
  have "types h = types g @ [msg]"
    using Init_types [of c g msg] i by simp
  with Cons.IH [OF n] show ?case
    by simp
qed

lemma reinit_retype_ok:
  "reinit c g msgs = Inr g' \<Longrightarrow>
   reinit c (g\<lparr>types := ts\<rparr>) msgs = Inr (g'\<lparr>types := ts @ msgs\<rparr>)"
proof (induction msgs arbitrary: g ts)
  case Nil
  then show ?case by auto
next
  case (Cons msg msgs)
  obtain h r where i: "Init c g msg = (h, r)"
    by (cases "Init c g msg")
  with Cons.prems have r: "r = None" and n: "reinit c h msgs = Inr g'"
    by (auto split: option.splits)
  show ?case
    using Cons.IH [OF n, of "ts @ [msg]"] by (simp add: Init_retype i r)
qed

lemma reinit_retype_panic:
  "reinit c g msgs = Inl (g', y) \<Longrightarrow> \<exists>g''. reinit c (g\<lparr>types := ts\<rparr>) msgs = Inl (g'', y)"
proof (induction msgs arbitrary: g ts)
  case Nil
  then show ?case by simp
next
  case (Cons msg msgs)
  obtain h r where i: "Init c g msg = (h, r)"
    by (cases "Init c g msg")
  show ?case
  proof (cases r)
    case None
    with Cons.prems i have n: "reinit c h msgs = Inl (g', y)"
      by simp
    show ?thesis
      using Cons.IH [OF n, of "ts @ [msg]"] by (simp add: Init_retype i None)
  next
    case (Some e)
    with Cons.prems i have "e = y"
      by simp
    with Some show ?thesis
      by (simp add: Init_retype i)
  qed
qed

lemma Encode_types: "types (fst (Encode c g msg)) = types g"
  by (simp add: Encode_def Let_def split: prod.splits option.splits)

lemma Decode_types: "Decode c g data msg = Returned g' r \<Longrightarrow> types g' = types g"
  by (auto simp: Decode_def Let_def split: prod.splits option.splits sum.splits)

lemma run_calls_types: "run_calls c g ks = Inr g' \<Longrightarrow> types g' = types g @ registered ks"
proof (induction ks arbitrary: g)
  case Nil
  then show ?case by simp
next
  case (Cons k ks)
  from Cons.prems obtain h where s: "run_call c g k = Inr h" and n: "run_calls c h ks = Inr g'"
    by (auto split: sum.splits)
  have "types h @ registered ks = types g @ registered (k # ks)"
  proof (cases k)
    case (CallInit msg)
    with s show ?thesis by (auto simp: Init_types)
  next
    case (CallEncode msg)
    with s show ?thesis by (auto simp: Encode_types)
  next
    case (CallDecode data msg)
    with s show ?thesis by (auto split: outcome.splits dest: Decode_types)
  qed
  with Cons.IH [OF n] show ?case
    by simp
qed

text \<open>
  Whenever \<^verbatim>\<open>Decode\<close> returns, with nil or with an error, \<^verbatim>\<open>g.types\<close> is what
  it was before the call; and a history of calls that all return leaves in
  \<^verbatim>\<open>g.types\<close> the messages given to \<^verbatim>\<open>Init\<close>, in the order of registration.
\<close>

lemma Decode_returns_keep_types:
  "(Decode c g data msg = Returned g' r \<longrightarrow> types g' = types g)
   \<and> (run_calls c (New_Gobber c) ks = Inr g'' \<longrightarrow> types g'' = registered ks)"
proof (intro conjI impI)
  assume "Decode c g data msg = Returned g' r"
  then show "types g' = types g"
    by (rule Decode_types)
next
  assume "run_calls c (New_Gobber c) ks = Inr g''"
  then have "types g'' = types (New_Gobber c) @ registered ks"
    by (rule run_calls_types)
  then show "types g'' = registered ks"
    by (simp add: New_Gobber_def)
qed

text \<open>
  A failed inner decode that leaves \<open>rest\<close> unread: \<^verbatim>\<open>Decode\<close> does what a new
  encoder and a new decoder do when \<^verbatim>\<open>Init\<close> is run on the registered types in the
  order of their registration, on the buffers as they are. If every one of these calls
  succeeds, the decode error is returned and the type list is as before; if one fails,
  \<^verbatim>\<open>Decode\<close> panics with its error.
\<close>

lemma Decode_failure_recovers:
  assumes "dec_Decode c (inDec g) (inBuf g @ data) msg = (Some x, dec, rest)"
  shows "case reinit c ((New_Gobber c)\<lparr>inBuf := rest, outBuf := outBuf g\<rparr>) (types g) of
           Inr g' \<Rightarrow> Decode c g data msg = Returned (g'\<lparr>inBuf := []\<rparr>) (Some x)
                      \<and> types g' = types g
         | Inl (g', y) \<Rightarrow> \<exists>g''. Decode c g data msg = Panicked g'' y"
proof -
  let ?f = "(New_Gobber c)\<lparr>inBuf := rest, outBuf := outBuf g\<rparr>"
  let ?g3 = "g\<lparr>inBuf := rest, outEnc := NewEncoder c, inDec := NewDecoder c\<rparr>"
  have f: "?g3 = ?f\<lparr>types := types g\<rparr>"
    by (simp add: New_Gobber_def)
  have d: "Decode c g data msg =
      (case reinit c ?g3 (types g) of
         Inl (g4, y) \<Rightarrow> Panicked (g4\<lparr>inBuf := []\<rparr>) y
       | Inr g4 \<Rightarrow> Returned (g4\<lparr>types := types g, inBuf := []\<rparr>) (Some x))"
    using assms by (simp add: Decode_def Let_def cong: sum.case_cong)
  show ?thesis
  proof (cases "reinit c ?f (types g)")
    case (Inr g')
    have t: "types g' = types g"
      using reinit_types [OF Inr] by (simp add: New_Gobber_def)
    have "reinit c ?g3 (types g) = Inr (g'\<lparr>types := types g @ types g\<rparr>)"
      unfolding f by (rule reinit_retype_ok [OF Inr])
    then have "Decode c g data msg = Returned (g'\<lparr>types := types g, inBuf := []\<rparr>) (Some x)"
      by (simp add: d)
    moreover have "g'\<lparr>types := types g\<rparr> = g'"
      using t by simp
    ultimately show ?thesis
      using Inr t by simp
  next
    case (Inl p)
    obtain g' y where p: "p = (g', y)"
      by (cases p)
    from reinit_retype_panic [of c ?f "types g" g' y "types g"] Inl p
    obtain g'' where "reinit c ?g3 (types g) = Inl (g'', y)"
      unfolding f by auto
    then show ?thesis
      using Inl p by (simp add: d)
  qed
qed

text \<open>
  When the replay panics, the type list is not put back: it is the old list followed by
  the types the replay had reached, the failing one included.
\<close>

lemma reinit_panic_types:
  "reinit c g msgs = Inl (g', y) \<Longrightarrow>
   \<exists>k < length msgs. types g' = types g @ take (Suc k) msgs"
proof (induction msgs arbitrary: g)
  case Nil
  then show ?case by simp
next
  case (Cons msg msgs)
  obtain h r where i: "Init c g msg = (h, r)"
    by (cases "Init c g msg")
  have t: "types h = types g @ [msg]"
    using Init_types [of c g msg] i by simp
  show ?case
  proof (cases r)
    case None
    with Cons.prems i have "reinit c h msgs = Inl (g', y)"
      by simp
    from Cons.IH [OF this] obtain k where "k < length msgs" "types g' = types h @ take (Suc k) msgs"
      by blast
    then have "Suc k < length (msg # msgs) \<and> types g' = types g @ take (Suc (Suc k)) (msg # msgs)"
      by (simp add: t)
    then show ?thesis
      by blast
  next
    case (Some e)
    with Cons.prems i have "g' = h"
      by simp
    then have "0 < length (msg # msgs) \<and> types g' = types g @ take (Suc 0) (msg # msgs)"
      by (simp add: t)
    then show ?thesis
      by blast
  qed
qed

lemma Decode_panic_types:
  assumes "Decode c g data msg = Panicked g' y"
  shows "\<exists>k < length (types g). types g' = types g @ take (Suc k) (types g)"
proof -
  obtain err dec rest where d: "dec_Decode c (inDec g) (inBuf g @ data) msg = (err, dec, rest)"
    by (cases "dec_Decode c (inDec g) (inBuf g @ data) msg")
  let ?g3 = "g\<lparr>inBuf := rest, outEnc := NewEncoder c, inDec := NewDecoder c\<rparr>"
  from assms d obtain g4 where r: "reinit c ?g3 (types g) = Inl (g4, y)"
    and g': "g' = g4\<lparr>inBuf := []\<rparr>"
    by (auto simp: Decode_def Let_def split: option.splits sum.splits)
  from reinit_panic_types [OF r] show ?thesis
    by (simp add: g')
qed

lemma int_gobber_eq:
  "int_gobber c =
     \<lparr>outBuf = [], inBuf = [],
      outEnc = fst (snd (enc_Encode c (NewEncoder c) 0)),
      inDec = fst (snd (dec_Decode c (NewDecoder c) [3, 4, 0, 0] 0)),
      types = [0]\<rparr>"
  by (simp add: int_gobber_def Init_def New_Gobber_def gob_int_run_def)

text \<open>
  Claim C1, at the failing input. After \<^verbatim>\<open>New()\<close> and \<^verbatim>\<open>Init(new(int))\<close>, which
  returns nil, the call \<^verbatim>\<open>Decode([]byte{1, 9, 127}, new(int))\<close> fails in its inner
  decode with ``duplicate type received'' and one byte left unread. The new decoder
  reads from the same input buffer, which is reset only when \<^verbatim>\<open>Decode\<close> is left:
  the replayed \<^verbatim>\<open>Init\<close> meets the unread byte, fails with
  \<^verbatim>\<open>io.ErrUnexpectedEOF\<close>, and \<^verbatim>\<open>Decode\<close> panics with that error instead of
  returning the decode error. The same message with nothing behind it is handled as the
  claim says: the decode error is returned and the gobber is the registered one again.
\<close>

theorem Decode_panics_on_unread_input:
  "snd (Init (gob_int_run c) (New_Gobber (gob_int_run c)) 0) = None
   \<and> fst (dec_Decode (gob_int_run c) (inDec (int_gobber c)) (inBuf (int_gobber c) @ [1, 9, 127]) 0)
       = Some DuplicateTypeReceived
   \<and> Decode (gob_int_run c) (int_gobber c) [1, 9, 127] 0
       = Panicked \<lparr>outBuf = [], inBuf = [],
                   outEnc = fst (snd (enc_Encode c (NewEncoder c) 0)),
                   inDec = fst (snd (dec_Decode c (NewDecoder c) [127, 3, 4, 0, 0] 0)),
                   types = [0, 0]\<rparr>
                  ErrUnexpectedEOF
   \<and> Decode (gob_int_run c) (int_gobber c) [1, 9] 0
       = Returned (int_gobber c) (Some DuplicateTypeReceived)"
  by (simp add: int_gobber_eq Init_def New_Gobber_def Decode_def gob_int_run_def)

text \<open>
  Claim C10, at the same failing input. The history \<^verbatim>\<open>Init(new(int))\<close>,
  \<^verbatim>\<open>Decode([]byte{1, 9, 127}, new(int))\<close> registers one type, and the call of
  \<^verbatim>\<open>Decode\<close> leaves the type list with two entries: the replay has appended the
  type again and the panic leaves the function before the saved list is put back.
\<close>

theorem types_doubled_after_panic:
  "registered [CallInit 0, CallDecode [1, 9, 127] (0 :: int)] = [0]
   \<and> types (int_gobber c) = [0]
   \<and> types (left_by (Decode (gob_int_run c) (int_gobber c) [1, 9, 127] 0)) = [0, 0]
   \<and> (\<exists>g'. run_calls (gob_int_run c) (New_Gobber (gob_int_run c))
               [CallInit 0, CallDecode [1, 9, 127] 0] = Inl (g', ErrUnexpectedEOF)
             \<and> types g' = [0, 0])"
  by (simp add: int_gobber_eq Init_def New_Gobber_def Decode_def gob_int_run_def)

section \<open>Properties of accepting a relay\<close>

text \<open>
  Claim C7. If reading the client's init fails, or the carrier connection cannot be
  opened, or the init acknowledgement cannot be sent, \<^verbatim>\<open>acceptRelay\<close> closes the
  socket and returns that error, and neither the worker pool nor the processing loop is
  started. The two are started only if all three steps have succeeded (and then both
  are, and the socket stays open).
\<close>

theorem acceptRelay_handshake:
  "(procInit_res hs = Inl err \<longrightarrow> refused (acceptRelay hs) err)
   \<and> (procInit_res hs = Inr app \<and> Connect_res hs app = Inl err
        \<longrightarrow> refused (acceptRelay hs) err)
   \<and> (procInit_res hs = Inr app \<and> Connect_res hs app = Inr conn
        \<and> sendInit_res hs conn = Some err
        \<longrightarrow> refused (acceptRelay hs) err)
   \<and> (procInit_res hs = Inr app \<and> Connect_res hs app = Inr conn
        \<and> sendInit_res hs conn = None
        \<longrightarrow> acceptRelay hs
            = (\<lparr>iris = Some conn, sock_open = True, workers_started = True,
                 process_started = True\<rparr>, Inr ()))
   \<and> (workers_started (fst (acceptRelay hs)) \<or> process_started (fst (acceptRelay hs))
        \<longrightarrow> (\<exists>app conn. procInit_res hs = Inr app \<and> Connect_res hs app = Inr conn
                \<and> sendInit_res hs conn = None))"
  by (auto simp: acceptRelay_def refused_def drop_relay_def Let_def
           split: sum.splits option.splits)

theorem acceptRelay_handshake_witness:
  "refused (acceptRelay \<lparr>procInit_res = Inl (1::nat), Connect_res = (\<lambda>app. Inr (2::nat)),
                         sendInit_res = (\<lambda>conn. None)\<rparr>) 1
   \<and> refused (acceptRelay \<lparr>procInit_res = Inr ''app'', Connect_res = (\<lambda>app. Inl (3::nat)),
                           sendInit_res = (\<lambda>conn :: nat. None)\<rparr>) 3
   \<and> refused (acceptRelay \<lparr>procInit_res = Inr ''app'', Connect_res = (\<lambda>app. Inr (2::nat)),
                           sendInit_res = (\<lambda>conn. Some (4::nat))\<rparr>) 4
   \<and> acceptRelay \<lparr>procInit_res = Inr ''app'', Connect_res = (\<lambda>app. Inr (2::nat)),
                   sendInit_res = (\<lambda>conn. None :: nat option)\<rparr>
       = (\<lparr>iris = Some 2, sock_open = True, workers_started = True, process_started = True\<rparr>,
          Inr ())"
proof -
  let ?a = "\<lparr>procInit_res = Inl (1::nat), Connect_res = (\<lambda>app. Inr (2::nat)),
             sendInit_res = (\<lambda>conn. None)\<rparr>"
  let ?b = "\<lparr>procInit_res = Inr ''app'', Connect_res = (\<lambda>app. Inl (3::nat)),
             sendInit_res = (\<lambda>conn :: nat. None)\<rparr>"
  let ?c = "\<lparr>procInit_res = Inr ''app'', Connect_res = (\<lambda>app. Inr (2::nat)),
             sendInit_res = (\<lambda>conn. Some (4::nat))\<rparr>"
  let ?d = "\<lparr>procInit_res = Inr ''app'', Connect_res = (\<lambda>app. Inr (2::nat)),
             sendInit_res = (\<lambda>conn. None :: nat option)\<rparr>"
  have a: "refused (acceptRelay ?a) 1"
    using acceptRelay_handshake [of ?a 1] by simp
  have b: "refused (acceptRelay ?b) 3"
    using acceptRelay_handshake [of ?b 3 "''app''"] by simp
  have c: "refused (acceptRelay ?c) 4"
    using acceptRelay_handshake [of ?c 4 "''app''" 2] by simp
  have d: "acceptRelay ?d
       = (\<lparr>iris = Some 2, sock_open = True, workers_started = True, process_started = True\<rparr>,
          Inr ())"
    using acceptRelay_handshake [of ?d _ "''app''" 2] by simp
  from a b c d show ?thesis
    by simp
qed

end
